theory Spec2Isabelle
  imports Main "HOL-Library.Word"
begin

unbundle bit_operations_syntax

section \<open>Bytes, words and Go values\<close>

type_synonym byte = "8 word"
type_synonym u32 = "32 word"

text \<open>
  A Go call either returns or panics. A panic is not an error value: it unwinds the
  goroutine, so it is kept apart from every returned \<open>error\<close>.
\<close>

datatype 'a outcome = Done 'a | Panic

text \<open>
  A Go slice of bytes: the part of the backing array that starts at the slice's first
  element (\<open>arr\<close>, whose length is the capacity) and the length \<open>len\<close>. The nil slice
  has an empty backing array and length 0.
\<close>

record slice =
  arr :: "byte list"
  len :: nat

definition cap :: "slice \<Rightarrow> nat" where
  "cap s = length (arr s)"

definition bytes_of :: "slice \<Rightarrow> byte list" where
  "bytes_of s = take (len s) (arr s)"

definition nil_slice :: slice where
  "nil_slice = \<lparr>arr = [], len = 0\<rparr>"

definition slice_of :: "byte list \<Rightarrow> slice" where
  "slice_of bs = \<lparr>arr = bs, len = length bs\<rparr>"

text \<open>\<open>make([]byte, n)\<close>: a fresh zeroed array of length and capacity \<open>n\<close>.\<close>

definition make_bytes :: "nat \<Rightarrow> slice" where
  "make_bytes n = \<lparr>arr = replicate n 0, len = n\<rparr>"

text \<open>\<open>s[:n]\<close> for an \<open>int\<close> \<open>n\<close>: a run-time panic unless \<open>0 \<le> n \<le> cap(s)\<close>.\<close>

definition reslice :: "slice \<Rightarrow> int \<Rightarrow> slice outcome" where
  "reslice s n = (if 0 \<le> n \<and> n \<le> int (cap s) then Done (s\<lparr>len := nat n\<rparr>) else Panic)"

subsection \<open>encoding/binary, big endian\<close>

definition be32 :: "u32 \<Rightarrow> byte list" where
  "be32 w = [ucast (drop_bit 24 w), ucast (drop_bit 16 w), ucast (drop_bit 8 w), ucast w]"

definition be32_dec :: "byte list \<Rightarrow> u32" where
  "be32_dec bs =
     push_bit 24 (ucast (bs ! 0)) OR push_bit 16 (ucast (bs ! 1)) OR
     push_bit 8 (ucast (bs ! 2)) OR ucast (bs ! 3)"

subsection \<open>io.Reader over a finite stream\<close>

text \<open>
  The reader is the list of bytes it still holds; at its end it reports \<open>io.EOF\<close>.
  \<open>io.ReadFull(r, buf)\<close> with \<open>len(buf) = n\<close> gives the bytes it stored, the rest of the
  stream and the error: none when \<open>n\<close> bytes were there (and for \<open>n = 0\<close> without
  reading), \<open>EOF\<close> when nothing was read, \<open>ErrUnexpectedEOF\<close> after a short read.
\<close>

datatype io_error = EOF | ErrUnexpectedEOF

definition ReadFull :: "byte list \<Rightarrow> nat \<Rightarrow> byte list \<times> byte list \<times> io_error option" where
  "ReadFull r n =
     (if n \<le> length r then (take n r, drop n r, None)
      else if r = [] then ([], [], Some EOF)
      else (r, [], Some ErrUnexpectedEOF))"

subsection \<open>hash/crc32, IEEE polynomial\<close>

text \<open>
  The checksum of the Go standard library, in its bit-serial form: the polynomial is
  held least significant bit first, each byte is folded into the low byte of the
  register and shifted out in eight steps. \<open>crc32_update\<close> is the library's \<open>Update\<close>
  (the register is inverted on the way in and on the way out), \<open>ChecksumIEEE\<close> is
  \<open>Update\<close> from 0, and a digest made by \<open>NewIEEE\<close> starts at 0 and applies \<open>Update\<close>
  at every \<open>Write\<close>.
\<close>

definition IEEE :: u32 where
  "IEEE = 0xedb88320"

definition crc_shift :: "u32 \<Rightarrow> u32" where
  "crc_shift c = (if bit c 0 then drop_bit 1 c XOR IEEE else drop_bit 1 c)"

definition crc_byte :: "u32 \<Rightarrow> byte \<Rightarrow> u32" where
  "crc_byte c v = (crc_shift ^^ 8) (c XOR ucast v)"

definition crc32_update :: "u32 \<Rightarrow> byte list \<Rightarrow> u32" where
  "crc32_update c p = NOT (foldl crc_byte (NOT c) p)"

definition ChecksumIEEE :: "byte list \<Rightarrow> u32" where
  "ChecksumIEEE p = crc32_update 0 p"

section \<open>The frame codec (net/frame.go)\<close>

definition prefixValue :: u32 where
  "prefixValue = 0x55aa"

definition suffixValue :: u32 where
  "suffixValue = 0xaa55"

definition maxPacketSize :: int where
  "maxPacketSize = 0xffff"

record header =
  Prefix :: u32
  HSeq :: u32
  HCmd :: u32
  Length :: u32

record trailer =
  CRC :: u32
  Suffix :: u32

text \<open>\<open>binary.Size\<close> of the two structs: four and two 32-bit fields.\<close>

definition headerSize :: nat where
  "headerSize = 16"

definition trailerSize :: nat where
  "trailerSize = 8"

definition MaxPayloadSize :: int where
  "MaxPayloadSize = maxPacketSize - int trailerSize"

record frame =
  Seq :: u32
  Cmd :: u32
  Payload :: slice

definition write_header :: "header \<Rightarrow> byte list" where
  "write_header h = be32 (Prefix h) @ be32 (HSeq h) @ be32 (HCmd h) @ be32 (Length h)"

definition read_header :: "byte list \<Rightarrow> header" where
  "read_header bs =
     \<lparr>Prefix = be32_dec (take 4 bs), HSeq = be32_dec (take 4 (drop 4 bs)),
      HCmd = be32_dec (take 4 (drop 8 bs)), Length = be32_dec (take 4 (drop 12 bs))\<rparr>"

definition write_trailer :: "trailer \<Rightarrow> byte list" where
  "write_trailer t = be32 (CRC t) @ be32 (Suffix t)"

definition read_trailer :: "byte list \<Rightarrow> trailer" where
  "read_trailer bs = \<lparr>CRC = be32_dec (take 4 bs), Suffix = be32_dec (take 4 (drop 4 bs))\<rparr>"

datatype frame_error =
    HeaderRead io_error
  | BadPrefix u32
  | PayloadTooLarge int int
  | PayloadRead io_error
  | TrailerRead io_error
  | BadSuffix u32
  | CrcMismatch u32 u32
  | WriteTo

text \<open>
  \<open>(*Frame).buffer\<close>: the wire bytes of a frame, or the size error.
\<close>

definition buffer :: "frame \<Rightarrow> frame_error + byte list" where
  "buffer f =
     (let p = bytes_of (Payload f) in
      if int (length p) > MaxPayloadSize then Inl (PayloadTooLarge (int (length p)) MaxPayloadSize)
      else
        let length_field = length p + trailerSize;
            buf = write_header \<lparr>Prefix = prefixValue, HSeq = Seq f, HCmd = Cmd f,
                                Length = of_nat length_field\<rparr> @ p;
            crc = ChecksumIEEE buf
        in Inr (buf @ write_trailer \<lparr>CRC = crc, Suffix = suffixValue\<rparr>))"

text \<open>
  \<open>(*Frame).Decode\<close>. The result is the frame as the call leaves it (it is updated in
  place, also when the call fails), the rest of the stream, and the returned error.
  \<open>int\<close> has 64 bits, so \<open>int(h.Length) - trailerSize\<close> is exact. The payload is read
  through the tee into the CRC digest, the trailer is read from the stream itself.
\<close>

definition Decode_payload ::
  "frame \<Rightarrow> u32 \<Rightarrow> byte list \<Rightarrow> (frame \<times> byte list \<times> frame_error option) outcome" where
  "Decode_payload f crc r =
     (let (pb, r2, e2) = ReadFull r (len (Payload f));
          crc2 = crc32_update crc pb;
          f2 = f\<lparr>Payload := (Payload f)\<lparr>arr := pb @ drop (length pb) (arr (Payload f))\<rparr>\<rparr>
      in case e2 of
           Some e \<Rightarrow> Done (f2, r2, Some (PayloadRead e))
         | None \<Rightarrow>
            (let (tb, r3, e3) = ReadFull r2 trailerSize in
             case e3 of
               Some e \<Rightarrow> Done (f2, r3, Some (TrailerRead e))
             | None \<Rightarrow>
                (let t = read_trailer tb in
                 if Suffix t \<noteq> suffixValue then Done (f2, r3, Some (BadSuffix (Suffix t)))
                 else if crc2 \<noteq> CRC t then Done (f2, r3, Some (CrcMismatch crc2 (CRC t)))
                 else Done (f2, r3, None))))"

definition Decode ::
  "frame \<Rightarrow> byte list \<Rightarrow> (frame \<times> byte list \<times> frame_error option) outcome" where
  "Decode f r =
     (let (hb, r1, e1) = ReadFull r headerSize;
          crc1 = crc32_update 0 hb
      in case e1 of
           Some e \<Rightarrow> Done (f, r1, Some (HeaderRead e))
         | None \<Rightarrow>
            (let h = read_header hb in
             if Prefix h \<noteq> prefixValue then Done (f, r1, Some (BadPrefix (Prefix h)))
             else
               let f1 = f\<lparr>Seq := HSeq h, Cmd := HCmd h\<rparr>;
                   payloadSize = uint (Length h) - int trailerSize
               in if int (cap (Payload f1)) < payloadSize then
                    (if payloadSize > MaxPayloadSize then
                       Done (f1, r1, Some (PayloadTooLarge payloadSize MaxPayloadSize))
                     else Decode_payload (f1\<lparr>Payload := make_bytes (nat payloadSize)\<rparr>) crc1 r1)
                  else
                    (case reslice (Payload f1) payloadSize of
                       Panic \<Rightarrow> Panic
                     | Done s \<Rightarrow> Decode_payload (f1\<lparr>Payload := s\<rparr>) crc1 r1)))"

text \<open>\<open>DecodeFrame\<close>: \<open>Decode\<close> into a new, zero frame.\<close>

definition zero_frame :: frame where
  "zero_frame = \<lparr>Seq = 0, Cmd = 0, Payload = nil_slice\<rparr>"

definition DecodeFrame :: "byte list \<Rightarrow> (frame \<times> byte list \<times> frame_error option) outcome" where
  "DecodeFrame r = Decode zero_frame r"

subsection \<open>The checksum on natural numbers\<close>

text \<open>
  The same register steps on \<open>nat\<close>, where numerals are rewritten fast. They are only
  used to compute checksums of concrete byte strings; \<open>ChecksumIEEE_nat\<close> below
  proves that they give the value of \<open>ChecksumIEEE\<close>.
\<close>

definition crc_shift_nat :: "nat \<Rightarrow> nat" where
  "crc_shift_nat c = (if odd c then (c div 2) XOR 0xedb88320 else c div 2)"

definition crc_byte_nat :: "nat \<Rightarrow> nat \<Rightarrow> nat" where
  "crc_byte_nat c v = crc_shift_nat (crc_shift_nat (crc_shift_nat (crc_shift_nat
     (crc_shift_nat (crc_shift_nat (crc_shift_nat (crc_shift_nat (c XOR v))))))))"

subsection \<open>The test data of frame_test.go\<close>

definition testData :: "byte list" where
  "testData = [0x00, 0x00, 0x55, 0xaa, 0x00, 0x00, 0x00, 0x00, 0x00, 0x00, 0x00, 0x00,
      0x00, 0x00, 0x00, 0x9f, 0x00, 0x00, 0x00, 0x00, 0x7b, 0x22, 0x69, 0x70,
      0x22, 0x3a, 0x22, 0x31, 0x30, 0x2e, 0x31, 0x30, 0x2e, 0x32, 0x30, 0x30,
      0x2e, 0x31, 0x33, 0x32, 0x22, 0x2c, 0x22, 0x67, 0x77, 0x49, 0x64, 0x22,
      0x3a, 0x22, 0x30, 0x34, 0x38, 0x38, 0x35, 0x30, 0x34, 0x37, 0x65, 0x63,
      0x66, 0x61, 0x62, 0x63, 0x39, 0x39, 0x38, 0x65, 0x36, 0x61, 0x22, 0x2c,
      0x22, 0x61, 0x63, 0x74, 0x69, 0x76, 0x65, 0x22, 0x3a, 0x32, 0x2c, 0x22,
      0x61, 0x62, 0x69, 0x6c, 0x69, 0x74, 0x79, 0x22, 0x3a, 0x30, 0x2c, 0x22,
      0x6d, 0x6f, 0x64, 0x65, 0x22, 0x3a, 0x30, 0x2c, 0x22, 0x65, 0x6e, 0x63,
      0x72, 0x79, 0x70, 0x74, 0x22, 0x3a, 0x74, 0x72, 0x75, 0x65, 0x2c, 0x22,
      0x70, 0x72, 0x6f, 0x64, 0x75, 0x63, 0x74, 0x4b, 0x65, 0x79, 0x22, 0x3a,
      0x22, 0x6b, 0x65, 0x79, 0x35, 0x6e, 0x63, 0x6b, 0x34, 0x74, 0x61, 0x76,
      0x79, 0x34, 0x33, 0x6a, 0x70, 0x22, 0x2c, 0x22, 0x76, 0x65, 0x72, 0x73,
      0x69, 0x6f, 0x6e, 0x22, 0x3a, 0x22, 0x33, 0x2e, 0x31, 0x22, 0x7d, 0x5b,
      0xb7, 0x13, 0xb0, 0x00, 0x00, 0xaa, 0x55]"

text \<open>The wire bytes of the frame with sequence number 0, command 0 and no payload.\<close>

definition emptyFrameBytes :: "byte list" where
  "emptyFrameBytes = [0x00, 0x00, 0x55, 0xaa, 0x00, 0x00, 0x00, 0x00, 0x00, 0x00, 0x00, 0x00,
      0x00, 0x00, 0x00, 0x08, 0x68, 0x83, 0x6e, 0x53, 0x00, 0x00, 0xaa, 0x55]"

lemma length_be32: "length (be32 w) = 4"
  by (simp add: be32_def)

lemma be32_dec_be32: "be32_dec (be32 w) = w"
  unfolding be32_def be32_dec_def
proof (rule bit_word_eqI)
  fix n assume "n < LENGTH(32)"
  then have n: "n < 32" by simp
  consider "n < 8" | "8 \<le> n" "n < 16" | "16 \<le> n" "n < 24" | "24 \<le> n" "n < 32"
    using n by linarith
  then show "bit (push_bit 24 (ucast ([ucast (drop_bit 24 w), ucast (drop_bit 16 w), ucast (drop_bit 8 w), ucast w :: byte] ! 0)) OR
       push_bit 16 (ucast ([ucast (drop_bit 24 w), ucast (drop_bit 16 w), ucast (drop_bit 8 w), ucast w :: byte] ! 1)) OR
       push_bit 8 (ucast ([ucast (drop_bit 24 w), ucast (drop_bit 16 w), ucast (drop_bit 8 w), ucast w :: byte] ! 2)) OR
       ucast ([ucast (drop_bit 24 w), ucast (drop_bit 16 w), ucast (drop_bit 8 w), ucast w :: byte] ! 3) :: u32) n = bit w n"
    by cases (auto simp add: bit_simps)
qed

lemma byte_bit_high: "bit (b :: byte) (8 + n) = False"
  by (auto dest: bit_imp_le_length)

lemma be32_be32_dec: "length bs = 4 \<Longrightarrow> be32 (be32_dec bs) = bs"
proof -
  assume "length bs = 4"
  then obtain a b c d where bs: "bs = [a, b, c, d]"
    by (auto simp add: length_Suc_conv numeral_eq_Suc)
  have a: "ucast (drop_bit 24 (be32_dec [a,b,c,d])) = a"
    unfolding be32_dec_def by (rule bit_word_eqI) (auto simp add: bit_simps dest: bit_imp_le_length)
  have b: "ucast (drop_bit 16 (be32_dec [a,b,c,d])) = b"
    unfolding be32_dec_def by (rule bit_word_eqI) (auto simp add: bit_simps dest: bit_imp_le_length)
  have c: "ucast (drop_bit 8 (be32_dec [a,b,c,d])) = c"
    unfolding be32_dec_def by (rule bit_word_eqI) (auto simp add: bit_simps dest: bit_imp_le_length)
  have d: "ucast (be32_dec [a,b,c,d]) = d"
    unfolding be32_dec_def by (rule bit_word_eqI) (auto simp add: bit_simps dest: bit_imp_le_length)
  show ?thesis unfolding bs be32_def[of "be32_dec [a,b,c,d]"] using a b c d by simp
qed

lemma word_xor_right_cancel: "(a :: 'a::len word) XOR c = b XOR c \<Longrightarrow> a = b"
proof -
  assume "a XOR c = b XOR c"
  then have "(a XOR c) XOR c = (b XOR c) XOR c" by simp
  then show "a = b" by (simp add: xor.assoc)
qed

lemma crc_shift_top: "bit (crc_shift c) 31 = bit c 0"
  unfolding crc_shift_def IEEE_def by (auto simp add: bit_simps dest: bit_imp_le_length)

lemma crc_shift_inj: "crc_shift a = crc_shift b \<Longrightarrow> a = b"
proof -
  assume eq: "crc_shift a = crc_shift b"
  have "bit (crc_shift a) 31 = bit (crc_shift b) 31" using eq by simp
  then have low: "bit a 0 = bit b 0" by (simp only: crc_shift_top)
  have d: "drop_bit 1 a = drop_bit 1 b"
  proof (cases "bit a 0")
    case True
    with low eq have "drop_bit 1 a XOR IEEE = drop_bit 1 b XOR IEEE"
      by (simp add: crc_shift_def)
    then show ?thesis by (rule word_xor_right_cancel)
  next
    case False
    with low eq show ?thesis by (simp add: crc_shift_def)
  qed
  have hi: "bit a (Suc n) = bit b (Suc n)" for n
  proof -
    have "bit (drop_bit 1 a) n = bit (drop_bit 1 b) n" using d by simp
    then show ?thesis by (simp add: bit_drop_bit_eq)
  qed
  show "a = b"
  proof (rule bit_word_eqI)
    fix n
    show "bit a n = bit b n"
      by (cases n) (simp_all add: low hi)
  qed
qed

lemma crc_shift8_inj: "inj (crc_shift ^^ 8)"
  by (rule inj_fn) (rule injI, erule crc_shift_inj)

lemma crc_byte_inj_state: "crc_byte a v = crc_byte b v \<Longrightarrow> a = b"
proof -
  assume "crc_byte a v = crc_byte b v"
  then have "(crc_shift ^^ 8) (a XOR ucast v) = (crc_shift ^^ 8) (b XOR ucast v)"
    unfolding crc_byte_def .
  then have "a XOR ucast v = b XOR ucast v"
    by (rule injD [OF crc_shift8_inj])
  then show "a = b" by (rule word_xor_right_cancel)
qed

lemma ucast_byte_inj: "(ucast (v :: byte) :: u32) = ucast w \<Longrightarrow> v = w"
proof (rule bit_word_eqI)
  fix n assume eq: "(ucast v :: u32) = ucast w" and n: "n < LENGTH(8)"
  have "bit v n = bit (ucast v :: u32) n" using n by (simp add: bit_simps)
  also have "\<dots> = bit (ucast w :: u32) n" using eq by simp
  also have "\<dots> = bit w n" using n by (simp add: bit_simps)
  finally show "bit v n = bit w n" .
qed

lemma crc_byte_inj_byte: "crc_byte c v = crc_byte c w \<Longrightarrow> v = w"
proof -
  assume "crc_byte c v = crc_byte c w"
  then have "(crc_shift ^^ 8) (c XOR ucast v) = (crc_shift ^^ 8) (c XOR ucast w)"
    unfolding crc_byte_def .
  then have "c XOR ucast v = c XOR ucast w"
    by (rule injD [OF crc_shift8_inj])
  then have "ucast v XOR c = (ucast w :: u32) XOR c" by (metis xor.commute)
  then have "(ucast v :: u32) = ucast w" by (rule word_xor_right_cancel)
  then show "v = w" by (rule ucast_byte_inj)
qed

lemma foldl_crc_byte_inj: "foldl crc_byte a p = foldl crc_byte b p \<Longrightarrow> a = b"
proof (induction p arbitrary: a b)
  case Nil
  then show ?case by simp
next
  case (Cons x p)
  from Cons.prems have "foldl crc_byte (crc_byte a x) p = foldl crc_byte (crc_byte b x) p"
    by simp
  then have "crc_byte a x = crc_byte b x" by (rule Cons.IH)
  then show ?case by (rule crc_byte_inj_state)
qed

lemma crc32_update_append: "crc32_update (crc32_update c p) q = crc32_update c (p @ q)"
  by (simp add: crc32_update_def)

lemma crc32_update_flip:
  assumes "v \<noteq> w"
  shows "crc32_update c (p @ v # q) \<noteq> crc32_update c (p @ w # q)"
proof
  assume "crc32_update c (p @ v # q) = crc32_update c (p @ w # q)"
  then have "foldl crc_byte (crc_byte (foldl crc_byte (NOT c) p) v) q
           = foldl crc_byte (crc_byte (foldl crc_byte (NOT c) p) w) q"
    unfolding crc32_update_def foldl_append foldl_Cons
    by (metis bit.double_compl)
  then have "crc_byte (foldl crc_byte (NOT c) p) v = crc_byte (foldl crc_byte (NOT c) p) w"
    by (rule foldl_crc_byte_inj)
  then have "v = w" by (rule crc_byte_inj_byte)
  with assms show False by simp
qed


lemma ReadFull_exact: "ReadFull (a @ r) (length a) = (a, r, None)"
  by (simp add: ReadFull_def)

lemma length_write_header: "length (write_header h) = 16"
  by (simp add: write_header_def length_be32)

lemma length_write_trailer: "length (write_trailer t) = 8"
  by (simp add: write_trailer_def length_be32)

lemma read_header_write_header: "read_header (write_header h) = h"
  by (simp add: read_header_def write_header_def length_be32 be32_dec_be32)

lemma read_trailer_write_trailer: "read_trailer (write_trailer t) = t"
  by (simp add: read_trailer_def write_trailer_def length_be32 be32_dec_be32)

lemma Decode_payload_ok:
  assumes "len (Payload f) = length p" and "length p \<le> cap (Payload f)"
  shows "Decode_payload f crc
           (p @ write_trailer \<lparr>CRC = crc32_update crc p, Suffix = suffixValue\<rparr> @ rest)
         = Done (f\<lparr>Payload := (Payload f)\<lparr>arr := p @ drop (length p) (arr (Payload f))\<rparr>\<rparr>,
                 rest, None)"
proof -
  have 1: "ReadFull (p @ write_trailer \<lparr>CRC = crc32_update crc p, Suffix = suffixValue\<rparr> @ rest)
             (len (Payload f))
           = (p, write_trailer \<lparr>CRC = crc32_update crc p, Suffix = suffixValue\<rparr> @ rest, None)"
    using assms(1) ReadFull_exact [of p] by simp
  have 2: "ReadFull (write_trailer \<lparr>CRC = crc32_update crc p, Suffix = suffixValue\<rparr> @ rest)
             trailerSize
           = (write_trailer \<lparr>CRC = crc32_update crc p, Suffix = suffixValue\<rparr>, rest, None)"
    using ReadFull_exact [of "write_trailer \<lparr>CRC = crc32_update crc p, Suffix = suffixValue\<rparr>" rest]
    by (simp add: length_write_trailer trailerSize_def)
  show ?thesis
    unfolding Decode_payload_def 1
    by (simp add: 2 read_trailer_write_trailer)
qed


lemma uint_of_nat_small: "n < 2 ^ 32 \<Longrightarrow> uint (of_nat n :: u32) = int n"
  by (simp add: uint_nat unat_of_nat)

lemma Decode_header_gen:
  assumes hb: "length hb = 16"
    and pre: "Prefix (read_header hb) = prefixValue"
  shows "Decode f0 (hb @ r) =
     (let f1 = f0\<lparr>Seq := HSeq (read_header hb), Cmd := HCmd (read_header hb)\<rparr>;
          payloadSize = uint (Length (read_header hb)) - int trailerSize
      in if int (cap (Payload f0)) < payloadSize then
           (if payloadSize > MaxPayloadSize then
              Done (f1, r, Some (PayloadTooLarge payloadSize MaxPayloadSize))
            else Decode_payload (f1\<lparr>Payload := make_bytes (nat payloadSize)\<rparr>)
                   (crc32_update 0 hb) r)
         else if payloadSize < 0 then Panic
         else Decode_payload (f1\<lparr>Payload := (Payload f0)\<lparr>len := nat payloadSize\<rparr>\<rparr>)
                (crc32_update 0 hb) r)"
proof -
  have 1: "ReadFull (hb @ r) headerSize = (hb, r, None)"
    using ReadFull_exact [of hb r] by (simp add: hb headerSize_def)
  show ?thesis
    unfolding Decode_def 1
    by (simp add: pre reslice_def cap_def Let_def)
qed

lemma Decode_header_ok:
  assumes n: "length p + 8 < 2 ^ 32"
    and hdr: "hdr = write_header \<lparr>Prefix = prefixValue, HSeq = s, HCmd = c,
                                   Length = of_nat (length p + trailerSize)\<rparr>"
  shows "Decode f0 (hdr @ r) =
     (if cap (Payload f0) < length p then
        (if int (length p) > MaxPayloadSize then
           Done (f0\<lparr>Seq := s, Cmd := c\<rparr>, r, Some (PayloadTooLarge (int (length p)) MaxPayloadSize))
         else Decode_payload (f0\<lparr>Seq := s, Cmd := c, Payload := make_bytes (length p)\<rparr>)
                (crc32_update 0 hdr) r)
      else Decode_payload (f0\<lparr>Seq := s, Cmd := c, Payload := (Payload f0)\<lparr>len := length p\<rparr>\<rparr>)
             (crc32_update 0 hdr) r)"
proof -
  have 2: "read_header hdr = \<lparr>Prefix = prefixValue, HSeq = s, HCmd = c,
                                   Length = of_nat (length p + trailerSize)\<rparr>"
    by (simp only: hdr read_header_write_header)
  have 3: "uint (of_nat (length p + trailerSize) :: u32) - int trailerSize = int (length p)"
  proof -
    have "length p + trailerSize < 2 ^ 32" using n by (simp add: trailerSize_def)
    then have "uint (of_nat (length p + trailerSize) :: u32) = int (length p + trailerSize)"
      by (rule uint_of_nat_small)
    then show ?thesis by (simp only: of_nat_add)
  qed
  have len: "length hdr = 16" by (simp only: hdr length_write_header)
  have pre: "Prefix (read_header hdr) = prefixValue" by (simp only: 2 header.simps)
  show ?thesis
    unfolding Decode_header_gen [OF len pre] 2 header.simps 3 Let_def
    by (simp add: cap_def)
qed

lemma Decode_stream_ok:
  assumes n: "length p + 8 < 2 ^ 32"
    and fits: "int (length p) \<le> MaxPayloadSize \<or> length p \<le> cap (Payload f0)"
    and hdr: "hdr = write_header \<lparr>Prefix = prefixValue, HSeq = s, HCmd = c,
                                   Length = of_nat (length p + trailerSize)\<rparr>"
  shows "\<exists>f. Decode f0 (hdr @ p @ write_trailer \<lparr>CRC = ChecksumIEEE (hdr @ p),
                                                     Suffix = suffixValue\<rparr> @ rest)
               = Done (f, rest, None)
             \<and> Seq f = s \<and> Cmd f = c \<and> bytes_of (Payload f) = p"
proof (cases "cap (Payload f0) < length p")
  case True
  with fits have small: "\<not> int (length p) > MaxPayloadSize" by simp
  have crc: "ChecksumIEEE (hdr @ p) = crc32_update (crc32_update 0 hdr) p"
    by (simp add: ChecksumIEEE_def crc32_update_append)
  show ?thesis
    unfolding Decode_header_ok [OF n hdr] crc
    using True small
    by (simp add: Decode_payload_ok make_bytes_def cap_def bytes_of_def)
next
  case False
  have crc: "ChecksumIEEE (hdr @ p) = crc32_update (crc32_update 0 hdr) p"
    by (simp add: ChecksumIEEE_def crc32_update_append)
  show ?thesis
    unfolding Decode_header_ok [OF n hdr] crc
    using False
    by (simp add: Decode_payload_ok cap_def bytes_of_def)
qed


lemma Decode_payload_crc:
  assumes "len (Payload f) = length p" and "length p \<le> cap (Payload f)"
    and "crc32_update crc p \<noteq> x"
  shows "Decode_payload f crc (p @ write_trailer \<lparr>CRC = x, Suffix = suffixValue\<rparr> @ rest)
         = Done (f\<lparr>Payload := (Payload f)\<lparr>arr := p @ drop (length p) (arr (Payload f))\<rparr>\<rparr>,
                 rest, Some (CrcMismatch (crc32_update crc p) x))"
proof -
  have 1: "ReadFull (p @ write_trailer \<lparr>CRC = x, Suffix = suffixValue\<rparr> @ rest)
             (len (Payload f))
           = (p, write_trailer \<lparr>CRC = x, Suffix = suffixValue\<rparr> @ rest, None)"
    using assms(1) ReadFull_exact [of p] by simp
  have 2: "ReadFull (write_trailer \<lparr>CRC = x, Suffix = suffixValue\<rparr> @ rest) trailerSize
           = (write_trailer \<lparr>CRC = x, Suffix = suffixValue\<rparr>, rest, None)"
    using ReadFull_exact [of "write_trailer \<lparr>CRC = x, Suffix = suffixValue\<rparr>" rest]
    by (simp add: length_write_trailer trailerSize_def)
  show ?thesis
    unfolding Decode_payload_def 1
    using assms(3) by (simp add: 2 read_trailer_write_trailer)
qed

lemma be32_dec_inj: "length a = 4 \<Longrightarrow> length b = 4 \<Longrightarrow> be32_dec a = be32_dec b \<Longrightarrow> a = b"
  by (metis be32_be32_dec)

lemma list_update_flip:
  assumes "i < length xs" and "b \<noteq> xs ! i"
  shows "\<exists>pre post v. xs = pre @ v # post \<and> xs[i := b] = pre @ b # post \<and> b \<noteq> v"
  using assms by (metis id_take_nth_drop upd_conv_take_nth_drop)

lemma crc32_update_list_update:
  assumes "i < length xs" and "b \<noteq> xs ! i"
  shows "crc32_update c (xs[i := b]) \<noteq> crc32_update c xs"
proof -
  obtain pre post v where "xs = pre @ v # post" "xs[i := b] = pre @ b # post" "b \<noteq> v"
    using list_update_flip [OF assms] by blast
  then show ?thesis using crc32_update_flip [of b v c pre post] by simp
qed

lemma buffer_ok:
  assumes "int (length (bytes_of (Payload f))) \<le> MaxPayloadSize"
  shows "buffer f = Inr (write_header \<lparr>Prefix = prefixValue, HSeq = Seq f, HCmd = Cmd f,
                            Length = of_nat (length (bytes_of (Payload f)) + trailerSize)\<rparr>
                        @ bytes_of (Payload f)
                        @ write_trailer \<lparr>CRC = ChecksumIEEE
                             (write_header \<lparr>Prefix = prefixValue, HSeq = Seq f, HCmd = Cmd f,
                                Length = of_nat (length (bytes_of (Payload f)) + trailerSize)\<rparr>
                              @ bytes_of (Payload f)), Suffix = suffixValue\<rparr>)"
  using assms by (simp add: buffer_def Let_def)

lemma small_payload: "int n \<le> MaxPayloadSize \<Longrightarrow> n + 8 < 2 ^ 32"
  by (simp add: MaxPayloadSize_def maxPacketSize_def trailerSize_def)

text \<open>
  Claim C1 (frame round trip). A frame whose payload has at most \<open>MaxPayloadSize\<close>
  bytes is encoded without error, and \<open>DecodeFrame\<close> on the encoded bytes returns no
  error, leaves no byte unread, and gives the sequence number, the command and the
  payload of the original frame.
\<close>

theorem frame_round_trip:
  assumes "int (length (bytes_of (Payload f))) \<le> MaxPayloadSize"
  shows "\<exists>w f'. buffer f = Inr w \<and> DecodeFrame w = Done (f', [], None)
           \<and> Seq f' = Seq f \<and> Cmd f' = Cmd f
           \<and> bytes_of (Payload f') = bytes_of (Payload f)"
proof -
  define p where "p = bytes_of (Payload f)"
  define hdr where "hdr = write_header \<lparr>Prefix = prefixValue, HSeq = Seq f, HCmd = Cmd f,
                                          Length = of_nat (length p + trailerSize)\<rparr>"
  have small: "int (length p) \<le> MaxPayloadSize" using assms by (simp add: p_def)
  have w: "buffer f = Inr (hdr @ p @ write_trailer \<lparr>CRC = ChecksumIEEE (hdr @ p),
                                                   Suffix = suffixValue\<rparr> @ [])"
    using buffer_ok [OF assms] by (simp add: p_def hdr_def)
  obtain f' where
    "Decode zero_frame (hdr @ p @ write_trailer \<lparr>CRC = ChecksumIEEE (hdr @ p),
                                                  Suffix = suffixValue\<rparr> @ [])
       = Done (f', [], None)"
    "Seq f' = Seq f" "Cmd f' = Cmd f" "bytes_of (Payload f') = p"
    using Decode_stream_ok [OF small_payload [OF small] disjI1 [OF small] hdr_def,
        of zero_frame "[]"]
    by blast
  then show ?thesis
    unfolding DecodeFrame_def w p_def by blast
qed

theorem frame_round_trip_witness:
  "int (length (bytes_of (Payload \<lparr>Seq = 7, Cmd = 10, Payload = slice_of [1, 2, 3]\<rparr>)))
     \<le> MaxPayloadSize
   \<and> (\<exists>w f'. buffer \<lparr>Seq = 7, Cmd = 10, Payload = slice_of [1, 2, 3]\<rparr> = Inr w
         \<and> DecodeFrame w = Done (f', [], None)
         \<and> Seq f' = 7 \<and> Cmd f' = 10 \<and> bytes_of (Payload f') = [1, 2, 3])"
proof -
  have h: "int (length (bytes_of (Payload \<lparr>Seq = 7, Cmd = 10, Payload = slice_of [1, 2, 3]\<rparr>)))
             \<le> MaxPayloadSize"
    by (simp add: bytes_of_def slice_of_def MaxPayloadSize_def maxPacketSize_def trailerSize_def)
  from frame_round_trip [OF h] h show ?thesis
    by (simp add: bytes_of_def slice_of_def)
qed

lemma Decode_bad_prefix:
  assumes hb: "length hb = 16"
    and pre: "Prefix (read_header hb) \<noteq> prefixValue"
  shows "Decode f0 (hb @ r) = Done (f0, r, Some (BadPrefix (Prefix (read_header hb))))"
proof -
  have 1: "ReadFull (hb @ r) headerSize = (hb, r, None)"
    using ReadFull_exact [of hb r] by (simp add: hb headerSize_def)
  show ?thesis
    unfolding Decode_def 1
    by (simp add: pre Let_def)
qed

lemma crc_flip_neq:
  assumes "i < length xs" and "b \<noteq> xs ! i"
  shows "crc32_update 0 (xs[i := b]) \<noteq> ChecksumIEEE xs"
  unfolding ChecksumIEEE_def using assms by (rule crc32_update_list_update)

lemma Decode_flip_prefix:
  assumes i: "i < 4" and b: "b \<noteq> hdr ! i"
    and hdr: "hdr = write_header \<lparr>Prefix = prefixValue, HSeq = s, HCmd = c, Length = l\<rparr>"
  shows "\<exists>x. Decode f0 (hdr[i := b] @ r) = Done (f0, r, Some (BadPrefix x))"
proof -
  have len: "length (hdr[i := b]) = 16" by (simp add: hdr length_write_header)
  have t: "take 4 (hdr[i := b]) = (be32 prefixValue)[i := b]"
    using i by (simp add: hdr write_header_def length_be32 list_update_append)
  have "(be32 prefixValue)[i := b] ! i = b" using i by (simp add: length_be32)
  moreover have "be32 prefixValue ! i = hdr ! i"
    using i by (simp add: hdr write_header_def length_be32 nth_append)
  ultimately have ne: "(be32 prefixValue)[i := b] \<noteq> be32 prefixValue"
    using b by metis
  have "be32_dec ((be32 prefixValue)[i := b]) \<noteq> be32_dec (be32 prefixValue)"
  proof
    assume "be32_dec ((be32 prefixValue)[i := b]) = be32_dec (be32 prefixValue)"
    then have "(be32 prefixValue)[i := b] = be32 prefixValue"
      by (intro be32_dec_inj) (simp_all add: length_be32)
    with ne show False by simp
  qed
  then have "Prefix (read_header (hdr[i := b])) \<noteq> prefixValue"
    by (simp add: read_header_def t be32_dec_be32)
  from Decode_bad_prefix [OF len this] show ?thesis by blast
qed

lemma Decode_flip_seq_cmd:
  assumes i: "4 \<le> i" "i < 12" and b: "b \<noteq> hdr ! i"
    and n: "int (length p) \<le> MaxPayloadSize"
    and hdr: "hdr = write_header \<lparr>Prefix = prefixValue, HSeq = s, HCmd = c,
                                   Length = of_nat (length p + trailerSize)\<rparr>"
  shows "\<exists>f x y. Decode f0 (hdr[i := b] @ p @ write_trailer
               \<lparr>CRC = ChecksumIEEE (hdr @ p), Suffix = suffixValue\<rparr> @ r)
             = Done (f, r, Some (CrcMismatch x y))"
proof -
  let ?hb = "hdr[i := b]"
  have lh: "length hdr = 16" by (simp add: hdr length_write_header)
  have len: "length ?hb = 16" by (simp add: lh)
  have rh: "read_header hdr = \<lparr>Prefix = prefixValue, HSeq = s, HCmd = c,
                                  Length = of_nat (length p + trailerSize)\<rparr>"
    by (simp only: hdr read_header_write_header)
  have pre: "Prefix (read_header ?hb) = prefixValue"
  proof -
    have "take 4 ?hb = take 4 hdr" using i by simp
    then have "Prefix (read_header ?hb) = Prefix (read_header hdr)"
      by (simp add: read_header_def)
    then show ?thesis by (simp add: rh)
  qed
  have lenf: "Length (read_header ?hb) = of_nat (length p + trailerSize)"
  proof -
    have "drop 12 ?hb = drop 12 hdr" using i by simp
    then have "Length (read_header ?hb) = Length (read_header hdr)"
      by (simp add: read_header_def)
    then show ?thesis by (simp add: rh)
  qed
  have sz: "uint (Length (read_header ?hb)) - int trailerSize = int (length p)"
  proof -
    have "length p + trailerSize < 2 ^ 32"
      using small_payload [OF n] by (simp add: trailerSize_def)
    then have "uint (of_nat (length p + trailerSize) :: u32) = int (length p + trailerSize)"
      by (rule uint_of_nat_small)
    then show ?thesis unfolding lenf by (simp only: of_nat_add)
  qed
  have crc: "crc32_update (crc32_update 0 ?hb) p \<noteq> ChecksumIEEE (hdr @ p)"
  proof -
    have "?hb @ p = (hdr @ p)[i := b]" using i lh by (simp add: list_update_append)
    moreover have "b \<noteq> (hdr @ p) ! i" using i lh b by (simp add: nth_append)
    moreover have "i < length (hdr @ p)" using i lh by simp
    ultimately show ?thesis
      using crc_flip_neq [of i "hdr @ p" b] by (simp add: crc32_update_append)
  qed
  show ?thesis
  proof (cases "cap (Payload f0) < length p")
    case True
    then show ?thesis
      unfolding Decode_header_gen [OF len pre] sz Let_def
      using n crc
      by (simp add: Decode_payload_crc make_bytes_def cap_def)
  next
    case False
    then show ?thesis
      unfolding Decode_header_gen [OF len pre] sz Let_def
      using crc
      by (simp add: Decode_payload_crc cap_def)
  qed
qed

lemma Decode_flip_payload:
  assumes i: "i < length p" and b: "b \<noteq> p ! i"
    and n: "int (length p) \<le> MaxPayloadSize"
    and hdr: "hdr = write_header \<lparr>Prefix = prefixValue, HSeq = s, HCmd = c,
                                   Length = of_nat (length p + trailerSize)\<rparr>"
  shows "\<exists>f x y. Decode f0 (hdr @ p[i := b] @ write_trailer
               \<lparr>CRC = ChecksumIEEE (hdr @ p), Suffix = suffixValue\<rparr> @ r)
             = Done (f, r, Some (CrcMismatch x y))"
proof -
  let ?p = "p[i := b]"
  have lh: "length hdr = 16" by (simp add: hdr length_write_header)
  have lp: "length ?p = length p" by simp
  have n': "length ?p + 8 < 2 ^ 32" using small_payload [OF n] by simp
  have hdr': "hdr = write_header \<lparr>Prefix = prefixValue, HSeq = s, HCmd = c,
                                    Length = of_nat (length ?p + trailerSize)\<rparr>"
    by (simp add: hdr)
  have crc: "crc32_update (crc32_update 0 hdr) ?p \<noteq> ChecksumIEEE (hdr @ p)"
  proof -
    have "hdr @ ?p = (hdr @ p)[16 + i := b]" using lh by (simp add: list_update_append)
    moreover have "b \<noteq> (hdr @ p) ! (16 + i)" using lh b by (simp add: nth_append)
    moreover have "16 + i < length (hdr @ p)" using i lh by simp
    ultimately show ?thesis
      using crc_flip_neq [of "16 + i" "hdr @ p" b] by (simp add: crc32_update_append)
  qed
  show ?thesis
  proof (cases "cap (Payload f0) < length p")
    case True
    then show ?thesis
      unfolding Decode_header_ok [OF n' hdr']
      using n crc
      by (simp add: Decode_payload_crc make_bytes_def cap_def)
  next
    case False
    then show ?thesis
      unfolding Decode_header_ok [OF n' hdr']
      using crc
      by (simp add: Decode_payload_crc cap_def)
  qed
qed

lemma unat_crc_shift: "unat (crc_shift c) = crc_shift_nat (unat c)"
proof -
  have b: "bit c 0 = odd (unat c)"
  proof -
    have "bit (unat c) 0 = bit c 0" by (simp add: bit_unsigned_iff)
    then show ?thesis by (simp add: bit_0)
  qed
  have d: "unat (drop_bit 1 c) = unat c div 2"
  proof -
    have "unat (drop_bit 1 c) = drop_bit 1 (unat c)" by (rule unat_drop_bit_eq)
    also have "\<dots> = unat c div 2" by (simp only: drop_bit_eq_div power_one_right)
    finally show ?thesis .
  qed
  have i: "unat IEEE = 0xedb88320" by (simp add: IEEE_def)
  show ?thesis
  proof (cases "odd (unat c)")
    case True
    then have "crc_shift c = drop_bit 1 c XOR IEEE" by (simp add: crc_shift_def b)
    then have "unat (crc_shift c) = unat c div 2 XOR 0xedb88320"
      by (simp only: unsigned_xor_eq d i)
    with True show ?thesis by (simp add: crc_shift_nat_def)
  next
    case False
    then have "crc_shift c = drop_bit 1 c" by (simp add: crc_shift_def b)
    then have "unat (crc_shift c) = unat c div 2" by (simp only: d)
    with False show ?thesis by (simp add: crc_shift_nat_def)
  qed
qed

lemma unat_crc_byte: "unat (crc_byte c v) = crc_byte_nat (unat c) (unat v)"
proof -
  have u: "unat (ucast v :: u32) = unat v"
    by (simp add: unsigned_ucast_eq unsigned_take_bit_eq take_bit_nat_eq_self
        order_less_trans [OF unsigned_less])
  have "crc_byte c v = crc_shift (crc_shift (crc_shift (crc_shift (crc_shift (crc_shift
          (crc_shift (crc_shift (c XOR ucast v))))))))"
    by (simp add: crc_byte_def numeral_eq_Suc)
  then show ?thesis
    by (simp add: crc_byte_nat_def unat_crc_shift unsigned_xor_eq u)
qed

lemma unat_foldl_crc_byte:
  "unat (foldl crc_byte c p) = foldl crc_byte_nat (unat c) (map unat p)"
  by (induction p arbitrary: c) (simp_all add: unat_crc_byte)

lemma ChecksumIEEE_nat:
  "ChecksumIEEE p = of_nat (foldl crc_byte_nat 0xffffffff (map unat p) XOR 0xffffffff)"
proof -
  have n: "NOT (0 :: u32) = 0xffffffff" by simp
  have x: "NOT (w :: u32) = w XOR 0xffffffff" for w
    by (simp flip: n add: bit.xor_one_right)
  have "unat (ChecksumIEEE p) = foldl crc_byte_nat 0xffffffff (map unat p) XOR 0xffffffff"
    unfolding ChecksumIEEE_def crc32_update_def n x [of "foldl crc_byte 0xffffffff p"]
    by (simp add: unsigned_xor_eq unat_foldl_crc_byte)
  then have "(of_nat (unat (ChecksumIEEE p)) :: u32)
      = of_nat (foldl crc_byte_nat 0xffffffff (map unat p) XOR 0xffffffff)"
    by (rule arg_cong)
  then show ?thesis by simp
qed


text \<open>
  Claim C5 (checksum and framing integrity), as amended. In the bytes of a validly
  encoded frame, replacing one byte of the sequence number, of the command or of the
  payload by another value makes \<open>Decode\<close> return the checksum-mismatch error, and
  replacing one byte of the prefix magic makes it return the bad-prefix error. This holds
  for every prior state of the frame decoded into and whatever follows the frame in the
  stream. The four bytes of the length field (indices 12 to 15) are left out: \<open>Decode\<close>
  uses the length before any checksum is compared.
\<close>

theorem flipped_byte_detected:
  assumes enc: "buffer f = Inr w"
    and i: "i < 16 + length (bytes_of (Payload f))" "i < 12 \<or> 16 \<le> i"
    and b: "b \<noteq> w ! i"
  shows "\<exists>f' r' e. Decode f0 (w[i := b] @ rest) = Done (f', r', Some e)
           \<and> (if i < 4 then \<exists>x. e = BadPrefix x else \<exists>x y. e = CrcMismatch x y)"
proof -
  define p where "p = bytes_of (Payload f)"
  define hdr where "hdr = write_header \<lparr>Prefix = prefixValue, HSeq = Seq f, HCmd = Cmd f,
                                          Length = of_nat (length p + trailerSize)\<rparr>"
  define trl where "trl = write_trailer \<lparr>CRC = ChecksumIEEE (hdr @ p), Suffix = suffixValue\<rparr>"
  have small: "int (length p) \<le> MaxPayloadSize"
    using enc by (auto simp add: buffer_def Let_def p_def split: if_splits)
  have w: "w = hdr @ p @ trl"
    using enc buffer_ok [of f] small by (simp add: p_def hdr_def trl_def)
  have lh: "length hdr = 16" by (simp add: hdr_def length_write_header)
  have i': "i < 16 + length p" using i(1) by (simp add: p_def)
  consider "i < 4" | "4 \<le> i" "i < 12" | "16 \<le> i" "i - 16 < length p"
    using i(2) i' by linarith
  then show ?thesis
  proof cases
    case 1
    have "w[i := b] @ rest = hdr[i := b] @ (p @ trl @ rest)"
      using 1 lh by (simp add: w list_update_append)
    moreover have "b \<noteq> hdr ! i" using b 1 lh by (simp add: w nth_append)
    ultimately show ?thesis
      using Decode_flip_prefix [OF 1 _ hdr_def, of b f0 "p @ trl @ rest"] 1 by auto
  next
    case 2
    have "w[i := b] @ rest = hdr[i := b] @ p @ trl @ rest"
      using 2 lh by (simp add: w list_update_append)
    moreover have "b \<noteq> hdr ! i" using b 2 lh by (simp add: w nth_append)
    ultimately show ?thesis
      using Decode_flip_seq_cmd [OF 2 _ small hdr_def, of b f0 rest] 2
      by (auto simp add: trl_def)
  next
    case 3
    have "w[i := b] @ rest = hdr @ p[i - 16 := b] @ trl @ rest"
      using 3 lh by (simp add: w list_update_append)
    moreover have "b \<noteq> p ! (i - 16)" using b 3 lh by (simp add: w nth_append)
    ultimately show ?thesis
      using Decode_flip_payload [OF 3(2) _ small hdr_def, of b f0 rest] 3
      by (auto simp add: trl_def)
  qed
qed

lemma empty_frame_wire:
  "buffer \<lparr>Seq = 0, Cmd = 0, Payload = nil_slice\<rparr> = Inr emptyFrameBytes"
proof -
  have h: "write_header \<lparr>Prefix = prefixValue, HSeq = 0, HCmd = 0, Length = 8\<rparr>
     = [0x00, 0x00, 0x55, 0xaa, 0x00, 0x00, 0x00, 0x00, 0x00, 0x00, 0x00, 0x00, 0x00, 0x00, 0x00, 0x08]"
    by (simp add: write_header_def be32_def prefixValue_def)
  have c: "ChecksumIEEE [0x00, 0x00, 0x55, 0xaa, 0x00, 0x00, 0x00, 0x00, 0x00, 0x00, 0x00, 0x00, 0x00, 0x00, 0x00, 0x08] = 0x68836e53"
    unfolding ChecksumIEEE_nat by (simp add: crc_byte_nat_def crc_shift_nat_def)
  have t: "write_trailer \<lparr>CRC = 0x68836e53, Suffix = suffixValue\<rparr> = [0x68, 0x83, 0x6e, 0x53, 0x00, 0x00, 0xaa, 0x55]"
    by (simp add: write_trailer_def be32_def suffixValue_def)
  show ?thesis
    by (simp add: buffer_def bytes_of_def nil_slice_def MaxPayloadSize_def maxPacketSize_def
      trailerSize_def Let_def h c t emptyFrameBytes_def)
qed


lemma Decode_too_large:
  assumes hb: "length hb = 16"
    and pre: "Prefix (read_header hb) = prefixValue"
    and c: "int (cap (Payload f0)) < uint (Length (read_header hb)) - int trailerSize"
    and m: "MaxPayloadSize < uint (Length (read_header hb)) - int trailerSize"
  shows "Decode f0 (hb @ r) =
     Done (f0\<lparr>Seq := HSeq (read_header hb), Cmd := HCmd (read_header hb)\<rparr>, r,
           Some (PayloadTooLarge (uint (Length (read_header hb)) - int trailerSize) MaxPayloadSize))"
  unfolding Decode_header_gen [OF hb pre] Let_def using c m by simp

lemma Decode_negative_size:
  assumes hb: "length hb = 16"
    and pre: "Prefix (read_header hb) = prefixValue"
    and l: "uint (Length (read_header hb)) < int trailerSize"
  shows "Decode f0 (hb @ r) = Panic"
  unfolding Decode_header_gen [OF hb pre] Let_def using l by simp

lemma flipped_header:
  "read_header [0x00, 0x00, 0x55, 0xaa, 0x00, 0x00, 0x00, 0x00, 0x00, 0x00, 0x00, 0x00, 0x01, 0x00, 0x00, 0x08]
   = \<lparr>Prefix = 0x55aa, HSeq = 0, HCmd = 0, Length = 0x01000008\<rparr>"
  by (simp add: read_header_def be32_dec_def)

text \<open>
  The claim C5 as it was stated fails on the length field: in the encoded empty frame,
  byte 12 changed from 0 to 1 gives the size error, not a checksum error.
\<close>

theorem length_flip_counterexample:
  "buffer \<lparr>Seq = 0, Cmd = 0, Payload = nil_slice\<rparr>
     = Inr emptyFrameBytes
   \<and> DecodeFrame (emptyFrameBytes[12 := 1])
       = Done (zero_frame, [0x68, 0x83, 0x6e, 0x53, 0x00, 0x00, 0xaa, 0x55],
               Some (PayloadTooLarge 16777216 65527))"
proof -
  have u: "emptyFrameBytes[12 := 1]
      = [0x00, 0x00, 0x55, 0xaa, 0x00, 0x00, 0x00, 0x00, 0x00, 0x00, 0x00, 0x00, 0x01, 0x00, 0x00, 0x08]
        @ [0x68, 0x83, 0x6e, 0x53, 0x00, 0x00, 0xaa, 0x55 :: byte]"
    by (simp add: numeral_eq_Suc emptyFrameBytes_def)
  have "Decode zero_frame ([0x00, 0x00, 0x55, 0xaa, 0x00, 0x00, 0x00, 0x00, 0x00, 0x00, 0x00, 0x00, 0x01, 0x00, 0x00, 0x08]
        @ [0x68, 0x83, 0x6e, 0x53, 0x00, 0x00, 0xaa, 0x55])
     = Done (zero_frame, [0x68, 0x83, 0x6e, 0x53, 0x00, 0x00, 0xaa, 0x55],
               Some (PayloadTooLarge 16777216 65527))"
    by (subst Decode_too_large)
      (simp_all add: flipped_header prefixValue_def zero_frame_def nil_slice_def cap_def
        trailerSize_def MaxPayloadSize_def maxPacketSize_def)
  then have "DecodeFrame (emptyFrameBytes[12 := 1])
       = Done (zero_frame, [0x68, 0x83, 0x6e, 0x53, 0x00, 0x00, 0xaa, 0x55],
               Some (PayloadTooLarge 16777216 65527))"
    unfolding DecodeFrame_def u .
  with empty_frame_wire show ?thesis by (rule conjI)
qed

theorem flipped_byte_detected_witness:
  "buffer \<lparr>Seq = 0, Cmd = 0, Payload = nil_slice\<rparr> = Inr emptyFrameBytes
   \<and> 5 < 16 + length (bytes_of (Payload \<lparr>Seq = 0, Cmd = 0, Payload = nil_slice\<rparr>))
   \<and> ((5::nat) < 12 \<or> (16::nat) \<le> 5) \<and> 1 \<noteq> emptyFrameBytes ! 5
   \<and> (\<exists>f' r' e. Decode zero_frame (emptyFrameBytes[5 := 1] @ []) = Done (f', r', Some e)
         \<and> (\<exists>x y. e = CrcMismatch x y))"
proof -
  have n: "(1 :: byte) \<noteq> emptyFrameBytes ! 5"
    by (simp add: emptyFrameBytes_def)
  have i: "5 < 16 + length (bytes_of (Payload \<lparr>Seq = 0, Cmd = 0, Payload = nil_slice\<rparr>))"
    by simp
  have j: "(5::nat) < 12 \<or> (16::nat) \<le> 5" by simp
  from flipped_byte_detected [OF empty_frame_wire i j n, of zero_frame "[]"] empty_frame_wire i j n
  show ?thesis by simp
qed

text \<open>
  Claim C4 (length bounds of \<open>Decode\<close>). The code does not do what the claim says.
  A header with the right prefix whose length field is below 8 gives a negative payload
  size; no capacity is smaller than it, so \<open>Decode\<close> takes the reuse branch and
  evaluates \<open>f.Payload[:payloadSize]\<close>, which panics. This holds for every prior
  state of the frame and every rest of the stream.
\<close>

theorem Decode_negative_size_panics:
  assumes "length hb = 16"
    and "Prefix (read_header hb) = prefixValue"
    and "uint (Length (read_header hb)) < int trailerSize"
  shows "Decode f0 (hb @ r) = Panic"
  using assms by (rule Decode_negative_size)

theorem Decode_negative_size_panics_witness:
  "length [0x00, 0x00, 0x55, 0xaa, 0, 0, 0, 0, 0, 0, 0, 0, 0, 0, 0, 0 :: byte] = 16
   \<and> Prefix (read_header [0x00, 0x00, 0x55, 0xaa, 0, 0, 0, 0, 0, 0, 0, 0, 0, 0, 0, 0]) = prefixValue
   \<and> uint (Length (read_header [0x00, 0x00, 0x55, 0xaa, 0, 0, 0, 0, 0, 0, 0, 0, 0, 0, 0, 0]))
        < int trailerSize
   \<and> DecodeFrame [0x00, 0x00, 0x55, 0xaa, 0, 0, 0, 0, 0, 0, 0, 0, 0, 0, 0, 0] = Panic"
proof -
  have h: "read_header [0x00, 0x00, 0x55, 0xaa, 0, 0, 0, 0, 0, 0, 0, 0, 0, 0, 0, 0]
           = \<lparr>Prefix = 0x55aa, HSeq = 0, HCmd = 0, Length = 0\<rparr>"
    by (simp add: read_header_def be32_dec_def)
  have 1: "length [0x00, 0x00, 0x55, 0xaa, 0, 0, 0, 0, 0, 0, 0, 0, 0, 0, 0, 0 :: byte] = 16"
    by simp
  have 2: "Prefix (read_header [0x00, 0x00, 0x55, 0xaa, 0, 0, 0, 0, 0, 0, 0, 0, 0, 0, 0, 0])
           = prefixValue"
    by (simp add: h prefixValue_def)
  have 3: "uint (Length (read_header [0x00, 0x00, 0x55, 0xaa, 0, 0, 0, 0, 0, 0, 0, 0, 0, 0, 0, 0]))
           < int trailerSize"
    by (simp add: h trailerSize_def)
  from Decode_negative_size_panics [OF 1 2 3, of zero_frame "[]"] 1 2 3
  show ?thesis by (simp add: DecodeFrame_def)
qed

text \<open>
  The second way in which C4 fails: the upper bound is only compared when a new buffer
  has to be allocated. With a caller-supplied buffer of 65528 bytes, a frame of 65528
  payload bytes (one more than \<open>MaxPayloadSize\<close>) is decoded without error.
\<close>

lemma Decode_oversize_reuse:
  "MaxPayloadSize < int (length (replicate 65528 (0 :: byte))) \<and>
   (\<exists>f. Decode \<lparr>Seq = 0, Cmd = 0, Payload = make_bytes 65528\<rparr>
          (write_header \<lparr>Prefix = prefixValue, HSeq = 1, HCmd = 2,
             Length = of_nat (length (replicate 65528 (0 :: byte)) + trailerSize)\<rparr>
           @ replicate 65528 0
           @ write_trailer \<lparr>CRC = ChecksumIEEE
               (write_header \<lparr>Prefix = prefixValue, HSeq = 1, HCmd = 2,
                  Length = of_nat (length (replicate 65528 (0 :: byte)) + trailerSize)\<rparr>
                @ replicate 65528 0), Suffix = suffixValue\<rparr> @ [])
        = Done (f, [], None) \<and> bytes_of (Payload f) = replicate 65528 0)"
proof -
  have n: "length (replicate 65528 (0 :: byte)) + 8 < 2 ^ 32" by simp
  have c: "int (length (replicate 65528 (0 :: byte))) \<le> MaxPayloadSize
      \<or> length (replicate 65528 (0 :: byte))
          \<le> cap (Payload \<lparr>Seq = 0, Cmd = 0, Payload = make_bytes 65528\<rparr>)"
    by (simp add: cap_def make_bytes_def)
  have m: "MaxPayloadSize < int (length (replicate 65528 (0 :: byte)))"
    by (simp add: MaxPayloadSize_def maxPacketSize_def trailerSize_def)
  from Decode_stream_ok [OF n c refl, of 1 2 "[]"] m show ?thesis by blast
qed

text \<open>
  What the code does guarantee: a payload size above \<open>MaxPayloadSize\<close> that does not
  fit the buffer of the frame gives the size error, with the frame's payload untouched.
\<close>

lemma Decode_too_large_fresh:
  assumes "length hb = 16"
    and "Prefix (read_header hb) = prefixValue"
    and "MaxPayloadSize < uint (Length (read_header hb)) - int trailerSize"
  shows "DecodeFrame (hb @ r) =
     Done (\<lparr>Seq = HSeq (read_header hb), Cmd = HCmd (read_header hb), Payload = nil_slice\<rparr>, r,
           Some (PayloadTooLarge (uint (Length (read_header hb)) - int trailerSize) MaxPayloadSize))"
proof -
  have "int (cap (Payload zero_frame)) < uint (Length (read_header hb)) - int trailerSize"
    using assms(3) by (simp add: zero_frame_def nil_slice_def cap_def MaxPayloadSize_def
        maxPacketSize_def trailerSize_def)
  from Decode_too_large [OF assms(1,2) this assms(3), of r] show ?thesis
    by (simp add: DecodeFrame_def zero_frame_def)
qed

end
